theory Spec2Isabelle
  imports Main "HOL-Library.Char_ord" "HOL-Library.List_Lexorder" "HOL-Library.Sublist"
    "HOL-Library.Multiset"
begin

section \<open>Strings\<close>

text \<open>
  A Go string is a sequence of bytes and \<open>string\<close> is a list of bytes. Go compares strings
  byte by byte from the left, a proper prefix being smaller: the order that
  \<open>List_Lexorder\<close> puts on lists over the byte order of \<open>Char_ord\<close>.

  The functions of Go's package \<open>strings\<close> that way.go calls are written out here. Case
  mapping is the one of ASCII letters; every other byte is left as it is, and
  \<open>EqualFold\<close> is equality up to that mapping (HTTP method names are ASCII tokens, and
  all patterns used below are ASCII).
\<close>

definition lower_byte :: "char \<Rightarrow> char" where
  "lower_byte c = (if CHR ''A'' \<le> c \<and> c \<le> CHR ''Z'' then char_of (of_char c + (32::nat)) else c)"

definition strings_ToLower :: "string \<Rightarrow> string" where
  "strings_ToLower s = map lower_byte s"

definition strings_EqualFold :: "string \<Rightarrow> string \<Rightarrow> bool" where
  "strings_EqualFold s t = (strings_ToLower s = strings_ToLower t)"

definition strings_HasPrefix :: "string \<Rightarrow> string \<Rightarrow> bool" where
  "strings_HasPrefix s p = prefix p s"

definition strings_HasSuffix :: "string \<Rightarrow> string \<Rightarrow> bool" where
  "strings_HasSuffix s p = suffix p s"

definition strings_Contains :: "string \<Rightarrow> string \<Rightarrow> bool" where
  "strings_Contains s sub = sublist sub s"

definition strings_TrimPrefix :: "string \<Rightarrow> string \<Rightarrow> string" where
  "strings_TrimPrefix s p = (if strings_HasPrefix s p then drop (length p) s else s)"

text \<open>\<open>strings.Trim(s, cutset)\<close>: all leading and trailing bytes of the cutset removed.\<close>

definition strings_Trim :: "string \<Rightarrow> string \<Rightarrow> string" where
  "strings_Trim s cutset =
     rev (dropWhile (\<lambda>c. c \<in> set cutset) (rev (dropWhile (\<lambda>c. c \<in> set cutset) s)))"

text \<open>
  \<open>strings.Split(s, sep)\<close> for a separator of one byte: the pieces between the
  separators, so one piece more than there are separators, and \<open>[[]]\<close> for the empty
  string.
\<close>

fun strings_Split :: "string \<Rightarrow> char \<Rightarrow> string list" where
  "strings_Split [] sep = [[]]"
| "strings_Split (c # cs) sep =
     (if c = sep then [] # strings_Split cs sep
      else (case strings_Split cs sep of
              [] \<Rightarrow> [[c]]
            | w # ws \<Rightarrow> (c # w) # ws))"

section \<open>The router's data\<close>

text \<open>
  The values stored in a request's context under keys of type \<open>wayContextKey\<close>: the only
  part of the context that \<open>Param\<close> reads. \<open>context.WithValue\<close> is an update of the
  map, the newest value of a key hiding the older one.
\<close>

type_synonym ctx = "string \<rightharpoonup> string"

text \<open>
  The handler is opaque: the table stores it and hands it back. The field \<open>method\<close> of
  the source is \<open>route_method\<close> here, and \<open>prefix\<close> is \<open>prefix_route\<close>.
\<close>

record 'h route =
  pattern :: string
  route_method :: string
  segs :: "string list"
  handler :: 'h
  prefix_route :: bool

record 'h Router =
  routes :: "'h route list"
  NotFound :: 'h

text \<open>The part of \<open>http.Request\<close> that the router reads.\<close>

record request =
  Method :: string
  Path :: string
  Context :: ctx

definition NewRouter :: "'h \<Rightarrow> 'h Router" where
  "NewRouter notFoundHandler = \<lparr>routes = [], NotFound = notFoundHandler\<rparr>"

definition pathSegments :: "string \<Rightarrow> string list" where
  "pathSegments p = strings_Split (strings_Trim p ''/'') (CHR ''/'')"

definition Count :: "'h Router \<Rightarrow> nat" where
  "Count r = length (routes r)"

section \<open>The precedence comparator\<close>

text \<open>\<open>routeList.Less(i, j)\<close>, given the routes \<open>s[i]\<close> and \<open>s[j]\<close>.\<close>

definition Less :: "'h route \<Rightarrow> 'h route \<Rightarrow> bool" where
  "Less a b =
     (let si = pattern a; sj = pattern b;
          siLower = strings_ToLower si; sjLower = strings_ToLower sj in
      if strings_HasPrefix sjLower ''/:'' then True
      else if strings_HasPrefix siLower ''/:'' then False
      else if strings_Contains sjLower '':'' \<and> \<not> strings_Contains siLower '':'' then True
      else if \<not> strings_Contains sjLower '':'' \<and> strings_Contains siLower '':'' then False
      else if siLower = sjLower then si < sj
      else siLower < sjLower)"

text \<open>
  \<open>sort.Sort\<close> belongs to Go's standard library. On a slice of at most twelve elements it
  runs the library's insertion sort (directly since Go 1.19; before, after one pass of
  Shell sort when there are more than six elements),
  \<^verbatim>\<open>for i := a + 1; i < b; i++ { for j := i; j > a && data.Less(j, j-1); j-- { data.Swap(j, j-1) } }\<close>
  and that routine stands for it here: \<open>sink front x\<close> is the inner loop, which swaps
  \<open>x\<close> towards the front of the elements before it while \<open>x\<close> is \<open>Less\<close> than its left
  neighbour.
\<close>

function sink :: "'h route list \<Rightarrow> 'h route \<Rightarrow> 'h route list" where
  "sink front x =
     (if front = [] then [x]
      else if Less x (last front) then sink (butlast front) x @ [last front]
      else front @ [x])"
  by pat_completeness auto
termination
  by (relation "measure (\<lambda>(front, x). length front)") auto

definition insertionSort :: "'h route list \<Rightarrow> 'h route list" where
  "insertionSort data = foldl sink [] data"

definition sort_Sort :: "'h route list \<Rightarrow> 'h route list" where
  "sort_Sort data = insertionSort data"

section \<open>Registration and removal\<close>

text \<open>The route that \<open>Router.Handle\<close> builds from its arguments.\<close>

definition new_route :: "string \<Rightarrow> string \<Rightarrow> 'h \<Rightarrow> 'h route" where
  "new_route meth pat h =
     \<lparr>pattern = pat,
      route_method = strings_ToLower meth,
      segs = pathSegments pat,
      handler = h,
      prefix_route = (strings_HasSuffix pat ''/'' \<or> strings_HasSuffix pat ''...'')\<rparr>"

definition Handle :: "string \<Rightarrow> string \<Rightarrow> 'h \<Rightarrow> 'h Router \<Rightarrow> 'h Router" where
  "Handle meth pat h r = r\<lparr>routes := sort_Sort (routes r @ [new_route meth pat h])\<rparr>"

text \<open>
  A Go slice: its backing array and its length. \<open>Router.Remove\<close> ranges over the slice it
  finds in \<open>r.routes\<close> when the loop starts, while \<open>removeIndex\<close> moves the elements of
  the same backing array and gives \<open>r.routes\<close> a shorter length. The array of the model
  is as long as \<open>r.routes\<close> was at the start of the loop; the loop reads no further.
\<close>

record 'a slice =
  array :: "'a list"
  len :: nat

datatype panic = SliceBoundsOutOfRange

text \<open>
  \<open>append(s[:index], s[index+1:]...)\<close>. \<open>s[:index]\<close> may reach past the length, up to the
  capacity; \<open>s[index+1:]\<close> ends at the length, and panics when \<open>index + 1\<close> is beyond it.
  The elements after \<open>index\<close> move one place to the front inside the backing array; the
  place of the last element, and all behind it, keep what they held.
\<close>

definition removeIndex :: "'a slice \<Rightarrow> nat \<Rightarrow> panic + 'a slice" where
  "removeIndex s index =
     (if index > length (array s) \<or> index + 1 > len s then Inl SliceBoundsOutOfRange
      else Inr \<lparr>array = take index (array s) @ drop (index + 1) (take (len s) (array s))
                         @ drop (len s - 1) (array s),
                len = len s - 1\<rparr>)"

text \<open>
  The loop of \<open>Router.Remove\<close> over the indices still to visit; \<open>s\<close> is \<open>r.routes\<close> as it
  is now, on the backing array that the loop reads \<open>v\<close> from.
\<close>

fun Remove_range :: "string \<Rightarrow> string \<Rightarrow> nat list \<Rightarrow> 'h route slice \<Rightarrow> panic + 'h route slice" where
  "Remove_range meth p [] s = Inr s"
| "Remove_range meth p (index # rest) s =
     (let v = array s ! index in
      if pattern v = p \<and> strings_EqualFold (route_method v) meth
      then (case removeIndex s index of
              Inl e \<Rightarrow> Inl e
            | Inr s' \<Rightarrow> Remove_range meth p rest s')
      else Remove_range meth p rest s)"

definition Remove :: "string \<Rightarrow> string \<Rightarrow> 'h Router \<Rightarrow> panic + 'h Router" where
  "Remove meth p r =
     (case Remove_range meth p [0 ..< length (routes r)]
             \<lparr>array = routes r, len = length (routes r)\<rparr> of
        Inl e \<Rightarrow> Inl e
      | Inr s \<Rightarrow> Inr (r\<lparr>routes := take (len s) (array s)\<rparr>))"

section \<open>Matching and dispatch\<close>

text \<open>
  The loop of \<open>route.match\<close> over the pattern's segments still to walk, \<open>i\<close> being the
  index of the first of them; \<open>None\<close> is the result \<open>(nil, false)\<close>.
\<close>

fun match_loop :: "string list \<Rightarrow> nat \<Rightarrow> string list \<Rightarrow> ctx \<Rightarrow> ctx option" where
  "match_loop [] i reqsegs c = Some c"
| "match_loop (seg # rest) i reqsegs c =
     (if int i > int (length reqsegs) - 1 then None
      else
        let isParam = strings_HasPrefix seg '':'';
            seg' = (if isParam then strings_TrimPrefix seg '':'' else seg) in
        if \<not> isParam \<and> strings_HasSuffix seg' ''...''
             \<and> strings_HasPrefix (reqsegs ! i) (take (length seg' - 3) seg') then Some c
        else if \<not> isParam \<and> seg' \<noteq> reqsegs ! i then None
        else match_loop rest (i + 1) reqsegs (if isParam then c(seg' \<mapsto> reqsegs ! i) else c))"

definition match :: "'h route \<Rightarrow> ctx \<Rightarrow> string list \<Rightarrow> ctx option" where
  "match r c reqsegs =
     (if length reqsegs > length (segs r) \<and> \<not> prefix_route r then None
      else match_loop (segs r) 0 reqsegs c)"

text \<open>
  What \<open>Router.ServeHTTP\<close> does to the outside: the calls of handlers it makes, in order,
  each with the request it passes.
\<close>

datatype 'h call = Handler_ServeHTTP 'h request | NotFound_ServeHTTP 'h request

fun ServeHTTP_loop :: "'h Router \<Rightarrow> request \<Rightarrow> string \<Rightarrow> string list \<Rightarrow> 'h route list \<Rightarrow> 'h call list" where
  "ServeHTTP_loop r req meth reqsegs [] = [NotFound_ServeHTTP (NotFound r) req]"
| "ServeHTTP_loop r req meth reqsegs (rt # rest) =
     (if route_method rt \<noteq> meth \<and> route_method rt \<noteq> ''*'' then ServeHTTP_loop r req meth reqsegs rest
      else (case match rt (Context req) reqsegs of
              Some c \<Rightarrow> [Handler_ServeHTTP (handler rt) (req\<lparr>Context := c\<rparr>)]
            | None \<Rightarrow> ServeHTTP_loop r req meth reqsegs rest))"

definition ServeHTTP :: "'h Router \<Rightarrow> request \<Rightarrow> 'h call list" where
  "ServeHTTP r req =
     ServeHTTP_loop r req (strings_ToLower (Method req)) (pathSegments (Path req)) (routes r)"

definition Param :: "ctx \<Rightarrow> string \<Rightarrow> string" where
  "Param c param = (case c param of None \<Rightarrow> [] | Some vStr \<Rightarrow> vStr)"

section \<open>Notions of the specification\<close>

text \<open>
  A route is considered for a request when its method is the request's, lower-cased, or
  the sentinel; it matches when it is considered and \<open>route.match\<close> accepts the path.
\<close>

definition considered :: "'h route \<Rightarrow> request \<Rightarrow> bool" where
  "considered rt req =
     (route_method rt = strings_ToLower (Method req) \<or> route_method rt = ''*'')"

definition matches :: "'h route \<Rightarrow> request \<Rightarrow> bool" where
  "matches rt req =
     (considered rt req \<and>
      (case match rt (Context req) (pathSegments (Path req)) of None \<Rightarrow> False | Some c \<Rightarrow> True))"

text \<open>
  Method names are tokens of ASCII characters (Go's \<open>net/http\<close> refuses any other, both
  in \<open>NewRequest\<close> and when it reads a request). Two such names are equal up to case when
  they are equal letter by letter, a capital letter and its small letter, 32 places
  further in the code, counting as the same.
\<close>

definition ascii_string :: "string \<Rightarrow> bool" where
  "ascii_string s = list_all (\<lambda>c. of_char c < (128::nat)) s"

definition is_upper :: "char \<Rightarrow> bool" where
  "is_upper c = (CHR ''A'' \<le> c \<and> c \<le> CHR ''Z'')"

definition same_letter :: "char \<Rightarrow> char \<Rightarrow> bool" where
  "same_letter c d =
     (c = d \<or> (is_upper c \<and> of_char d = of_char c + (32::nat))
            \<or> (is_upper d \<and> of_char c = of_char d + (32::nat)))"

definition equal_ignoring_case :: "string \<Rightarrow> string \<Rightarrow> bool" where
  "equal_ignoring_case s t = list_all2 same_letter s t"

text \<open>What a call shows of the dispatch: the fallback, or a handler with its bindings.\<close>

definition outcome :: "'h call \<Rightarrow> 'h + 'h \<times> ctx" where
  "outcome cl = (case cl of Handler_ServeHTTP h q \<Rightarrow> Inr (h, Context q)
                          | NotFound_ServeHTTP h q \<Rightarrow> Inl h)"

text \<open>
  The kinds of segment: a parameter starts with the marker \<open>:\<close>; a prefix literal is not
  a parameter and ends in \<open>...\<close>, and its stem is what stands before the three dots.
\<close>

definition is_param :: "string \<Rightarrow> bool" where
  "is_param seg = strings_HasPrefix seg '':''"

definition is_prefix_literal :: "string \<Rightarrow> bool" where
  "is_prefix_literal seg = (\<not> is_param seg \<and> strings_HasSuffix seg ''...'')"

definition stem :: "string \<Rightarrow> string" where
  "stem seg = take (length seg - 3) seg"

text \<open>
  The bindings of a route's walk, as the specification describes it: the pattern's
  segments are walked against the request's segments at the same index; a parameter
  segment records its name with the request's segment; a prefix literal whose stem starts
  the request's segment ends the walk.
\<close>

fun bound_params :: "string list \<Rightarrow> string list \<Rightarrow> (string \<times> string) list" where
  "bound_params [] rs = []"
| "bound_params (seg # rest) [] = []"
| "bound_params (seg # rest) (r # rs) =
     (if is_param seg then (drop 1 seg, r) # bound_params rest rs
      else if is_prefix_literal seg \<and> strings_HasPrefix r (stem seg) then []
      else bound_params rest rs)"

text \<open>A root-level parameter: a pattern that starts with \<open>/:\<close>.\<close>

definition root_parameter :: "'h route \<Rightarrow> bool" where
  "root_parameter a = strings_HasPrefix (strings_ToLower (pattern a)) ''/:''"

text \<open>
  The eight patterns of the ordering property, and the registration of a list of
  (method, pattern, handler) triples one after the other.
\<close>

definition eight_patterns :: "string list" where
  "eight_patterns = [''/:slug'', ''/'', ''/cool'', ''/cool/balloon'', ''/cool/:slug'',
                     ''/cool/another'', ''/rss/:ok'', ''/rss.xml'']"

definition register_all :: "(string \<times> string \<times> 'h) list \<Rightarrow> 'h Router \<Rightarrow> 'h Router" where
  "register_all regs r = foldl (\<lambda>r (m, p, h). Handle m p h r) r regs"

section \<open>Basic facts\<close>

declare sink.simps [simp del]

lemma new_route_sel:
  "pattern (new_route m p h) = p"
  "route_method (new_route m p h) = strings_ToLower m"
  "segs (new_route m p h) = pathSegments p"
  "handler (new_route m p h) = h"
  "prefix_route (new_route m p h) = (strings_HasSuffix p ''/'' \<or> strings_HasSuffix p ''...'')"
  by (simp_all add: new_route_def)

lemma lower_byte_star: "lower_byte c = CHR ''*'' \<longleftrightarrow> c = CHR ''*''"
proof (cases "CHR ''A'' \<le> c \<and> c \<le> CHR ''Z''")
  case True
  then have n: "65 \<le> (of_char c :: nat)" "(of_char c :: nat) \<le> 90"
    by (simp_all add: less_eq_char_def)
  have "(of_char (lower_byte c) :: nat) = (of_char c + 32) mod 256"
    using True by (simp add: lower_byte_def)
  with n have "(of_char (lower_byte c) :: nat) = of_char c + 32" by simp
  with n have "(of_char (lower_byte c) :: nat) \<noteq> of_char (CHR ''*'')" by simp
  then have "lower_byte c \<noteq> CHR ''*''" by metis
  moreover from n have "c \<noteq> CHR ''*''" by auto
  ultimately show ?thesis by simp
next
  case False
  then have "lower_byte c = c" unfolding lower_byte_def by (rule if_not_P)
  then show ?thesis by simp
qed

lemma strings_ToLower_star: "strings_ToLower m = ''*'' \<longleftrightarrow> m = ''*''"
  by (auto simp: strings_ToLower_def lower_byte_star)

lemma is_upper_nat: "is_upper c \<longleftrightarrow> 65 \<le> (of_char c :: nat) \<and> (of_char c :: nat) \<le> 90"
  by (simp add: is_upper_def less_eq_char_def)

lemma of_char_lower_byte:
  "(of_char (lower_byte c) :: nat) = (if is_upper c then of_char c + 32 else of_char c)"
proof (cases "is_upper c")
  case True
  then have n: "(of_char c :: nat) \<le> 90" by (simp add: is_upper_nat)
  have "(of_char (lower_byte c) :: nat) = (of_char c + 32) mod 256"
    using True by (simp add: lower_byte_def is_upper_def)
  with n True show ?thesis by simp
next
  case False
  then have "\<not> (CHR ''A'' \<le> c \<and> c \<le> CHR ''Z'')" by (simp add: is_upper_def)
  then have "lower_byte c = c" unfolding lower_byte_def by (rule if_not_P)
  with False show ?thesis by simp
qed

lemma lower_byte_same_letter: "lower_byte c = lower_byte d \<longleftrightarrow> same_letter c d"
proof -
  have "lower_byte c = lower_byte d \<longleftrightarrow>
        (of_char (lower_byte c) :: nat) = of_char (lower_byte d)"
    by simp
  also have "\<dots> \<longleftrightarrow> same_letter c d"
    unfolding of_char_lower_byte same_letter_def
    using of_char_eq_iff[of c d, where ?'a = nat]
    by (auto simp: is_upper_nat simp del: of_char_eq_iff)
  finally show ?thesis .
qed

lemma strings_ToLower_eq_iff:
  "strings_ToLower s = strings_ToLower t \<longleftrightarrow> equal_ignoring_case s t"
proof -
  have "map lower_byte s = map lower_byte t \<longleftrightarrow>
        list_all2 (\<lambda>c d. lower_byte c = lower_byte d) s t"
    by (induction s arbitrary: t) (auto simp: list_all2_Cons1 map_eq_Cons_conv Cons_eq_map_conv)
  then show ?thesis
    by (simp add: strings_ToLower_def equal_ignoring_case_def lower_byte_same_letter)
qed

lemma sort_Sort_single: "sort_Sort [x] = [x]"
  by (simp add: sort_Sort_def insertionSort_def sink.simps[of "[]"])

lemma map_add_snoc: "c ++ map_of (xs @ [(k, v)]) = c(k \<mapsto> v) ++ map_of xs"
  by (rule ext) (simp add: map_add_def split: option.splits)

section \<open>Removal\<close>

text \<open>
  Claim C1: \<open>remove(method, pattern)\<close> deletes every route whose method is equal up to
  case and whose pattern is equal, so that the count goes down by the number of such
  routes, also when they stand next to each other in the table.

  The code does not: after \<open>GET /a\<close>, \<open>GET /a\<close> and \<open>GET /b\<close> are registered, removing
  \<open>GET /a\<close> deletes the first of the two and steps over the second, which has moved into
  the place just visited; two routes are left, one of them \<open>/a\<close>. With only the two
  \<open>GET /a\<close> in the table the loop meets the copy that the shift left behind in the last
  place of the backing array, and \<open>removeIndex\<close> panics.
\<close>

theorem Remove_steps_over_adjacent_duplicate:
  "(case Remove ''GET'' ''/a''
            (Handle ''GET'' ''/b'' 3 (Handle ''GET'' ''/a'' 2 (Handle ''GET'' ''/a'' (1::nat)
               (NewRouter 0)))) of
      Inl e \<Rightarrow> False
    | Inr r' \<Rightarrow> Count r' = 2 \<and> map pattern (routes r') = [''/a'', ''/b'']
                 \<and> map handler (routes r') = [2, 3])
   \<and> Remove ''GET'' ''/a'' (Handle ''GET'' ''/a'' 2 (Handle ''GET'' ''/a'' (1::nat) (NewRouter 0)))
       = Inl SliceBoundsOutOfRange"
  by code_simp

section \<open>Precedence\<close>

text \<open>
  Away from root-level parameters the comparator is a strict total order on patterns; two
  root-level parameters are each before the other.
\<close>

lemma Less_two_root_parameters:
  "root_parameter a \<Longrightarrow> root_parameter b \<Longrightarrow> Less a b \<and> Less b a"
  by (simp add: Less_def root_parameter_def)

lemma Less_asym:
  "\<not> (root_parameter a \<and> root_parameter b) \<Longrightarrow> \<not> (Less a b \<and> Less b a)"
  by (auto simp: Less_def Let_def root_parameter_def split: if_splits)

lemma Less_total:
  "pattern a \<noteq> pattern b \<Longrightarrow> Less a b \<or> Less b a"
  by (auto simp: Less_def Let_def split: if_splits)

lemma Less_trans:
  "Less a b \<Longrightarrow> Less b c \<Longrightarrow> Less a c"
  by (auto simp: Less_def Let_def split: if_splits)

text \<open>
  Claim C2: the comparator is a strict total order over patterns: of two distinct patterns
  it never puts each before the other, also when both begin with \<open>/:\<close>.

  The code does put each before the other when both are root-level parameters: its first
  test looks at the second pattern only, so of \<open>/:a\<close> and \<open>/:b\<close> each is \<open>Less\<close> than
  the other.
\<close>

theorem Less_both_ways_on_root_parameters:
  "pattern (new_route ''GET'' ''/:a'' (1::nat)) \<noteq> pattern (new_route ''GET'' ''/:b'' (2::nat))
   \<and> Less (new_route ''GET'' ''/:a'' (1::nat)) (new_route ''GET'' ''/:b'' (2::nat))
   \<and> Less (new_route ''GET'' ''/:b'' (2::nat)) (new_route ''GET'' ''/:a'' (1::nat))"
  by code_simp

section \<open>The order of the table\<close>

lemma Less_pattern_cong:
  "pattern a = pattern a' \<Longrightarrow> pattern b = pattern b' \<Longrightarrow> Less a b = Less a' b'"
  by (simp add: Less_def)

lemma eight_checked:
  "list_all (\<lambda>p. p = ''/'' \<or>
       (Less (new_route [] ''/'' ()) (new_route [] p ())
        \<and> \<not> Less (new_route [] p ()) (new_route [] ''/'' ()))) eight_patterns
   \<and> list_all (\<lambda>p. p = ''/:slug'' \<or>
       (Less (new_route [] p ()) (new_route [] ''/:slug'' ())
        \<and> \<not> Less (new_route [] ''/:slug'' ()) (new_route [] p ()))) eight_patterns"
  by code_simp


lemma root_least:
  assumes "pattern a = ''/''" "pattern b \<in> set eight_patterns" "pattern b \<noteq> ''/''"
  shows "Less a b \<and> \<not> Less b a"
proof -
  from eight_checked assms(2,3)
  have "Less (new_route [] ''/'' ()) (new_route [] (pattern b) ())
        \<and> \<not> Less (new_route [] (pattern b) ()) (new_route [] ''/'' ())"
    by (auto simp: list_all_iff)
  moreover have "Less a b = Less (new_route [] ''/'' ()) (new_route [] (pattern b) ())"
    "Less b a = Less (new_route [] (pattern b) ()) (new_route [] ''/'' ())"
    by (rule Less_pattern_cong; simp add: new_route_sel assms(1))+
  ultimately show ?thesis by simp
qed

lemma slug_greatest:
  assumes "pattern b = ''/:slug''" "pattern a \<in> set eight_patterns" "pattern a \<noteq> ''/:slug''"
  shows "Less a b \<and> \<not> Less b a"
proof -
  from eight_checked assms(2,3)
  have "Less (new_route [] (pattern a) ()) (new_route [] ''/:slug'' ())
        \<and> \<not> Less (new_route [] ''/:slug'' ()) (new_route [] (pattern a) ())"
    by (auto simp: list_all_iff)
  moreover have "Less a b = Less (new_route [] (pattern a) ()) (new_route [] ''/:slug'' ())"
    "Less b a = Less (new_route [] ''/:slug'' ()) (new_route [] (pattern a) ())"
    by (rule Less_pattern_cong; simp add: new_route_sel assms(1))+
  ultimately show ?thesis by simp
qed

lemma mset_sink: "mset (sink front x) = add_mset x (mset front)"
proof (induction front x rule: sink.induct)
  case (1 front x)
  show ?case
  proof (cases "front = []")
    case True
    then show ?thesis by (simp add: sink.simps[of "[]"])
  next
    case False
    then have fr: "front = butlast front @ [last front]" by simp
    show ?thesis
    proof (cases "Less x (last front)")
      case True
      with False "1.IH" have "mset (sink front x) = add_mset (last front) (add_mset x (mset (butlast front)))"
        by (subst sink.simps) simp
      also have "\<dots> = add_mset x (mset (butlast front @ [last front]))" by simp
      finally show ?thesis using fr by simp
    next
      case True': False
      with False show ?thesis by (subst sink.simps) simp
    qed
  qed
qed

lemma mset_insertionSort: "mset (insertionSort xs) = mset xs"
proof -
  have "mset (foldl sink acc xs) = mset acc + mset xs" for acc
    by (induction xs arbitrary: acc) (simp_all add: mset_sink)
  then show ?thesis by (simp add: insertionSort_def)
qed

lemma sink_not_Nil: "sink front x \<noteq> []"
proof
  assume "sink front x = []"
  then have "mset (sink front x) = {#}" by simp
  then show False by (simp add: mset_sink)
qed

lemma set_sink: "set (sink front x) = insert x (set front)"
  using mset_sink[of front x] by (metis set_mset_add_mset_insert set_mset_mset)

lemma sink_snoc:
  "sink (ys @ [y]) x = (if Less x y then sink ys x @ [y] else ys @ [y, x])"
  by (subst sink.simps) simp

lemma sink_last_inv:
  assumes d: "distinct (map pattern (front @ [x]))"
    and e: "pattern ` set (front @ [x]) \<subseteq> set eight_patterns"
    and inv: "''/:slug'' \<in> pattern ` set front \<longrightarrow> pattern (last front) = ''/:slug''"
    and slug: "''/:slug'' \<in> pattern ` set (sink front x)"
  shows "pattern (last (sink front x)) = ''/:slug''"
proof (cases front rule: rev_cases)
  case Nil
  with slug show ?thesis by (simp add: sink.simps[of "[]"])
next
  case (snoc ys y)
  with d have ne: "pattern y \<noteq> pattern x" by simp
  from snoc e have ye: "pattern y \<in> set eight_patterns"
    and xe: "pattern x \<in> set eight_patterns" by simp_all
  from slug have cases: "''/:slug'' \<in> pattern ` set front \<or> pattern x = ''/:slug''"
    by (auto simp: set_sink)
  show ?thesis
  proof (cases "Less x y")
    case True
    have "pattern x \<noteq> ''/:slug''"
    proof
      assume a: "pattern x = ''/:slug''"
      with ne have "pattern y \<noteq> ''/:slug''" by simp
      from slug_greatest[OF a ye this] True show False by simp
    qed
    with cases have "''/:slug'' \<in> pattern ` set front" by simp
    with inv have "pattern (last front) = ''/:slug''" by blast
    with snoc have "pattern y = ''/:slug''" by simp
    moreover from snoc True have "sink front x = sink ys x @ [y]" by (simp add: sink_snoc)
    ultimately show ?thesis by simp
  next
    case nl: False
    have "''/:slug'' \<notin> pattern ` set front"
    proof
      assume "''/:slug'' \<in> pattern ` set front"
      with inv have "pattern (last front) = ''/:slug''" by blast
      with snoc have a: "pattern y = ''/:slug''" by simp
      with ne have "pattern x \<noteq> ''/:slug''" by simp
      from slug_greatest[OF a xe this] nl show False by simp
    qed
    with cases have "pattern x = ''/:slug''" by simp
    moreover from snoc nl have "sink front x = front @ [x]" by (simp add: sink_snoc)
    ultimately show ?thesis by simp
  qed
qed

lemma sink_first_inv:
  "distinct (map pattern (front @ [x])) \<Longrightarrow>
   pattern ` set (front @ [x]) \<subseteq> set eight_patterns \<Longrightarrow>
   (''/'' \<in> pattern ` set front \<longrightarrow> pattern (hd front) = ''/'') \<Longrightarrow>
   ''/'' \<in> pattern ` set (sink front x) \<Longrightarrow>
   pattern (hd (sink front x)) = ''/''"
proof (induction front arbitrary: x rule: rev_induct)
  case Nil
  then show ?case by (simp add: sink.simps[of "[]"])
next
  case (snoc y ys)
  note d = snoc.prems(1) and e = snoc.prems(2) and inv = snoc.prems(3) and root = snoc.prems(4)
  from d have ne: "pattern y \<noteq> pattern x" by simp
  from e have ye: "pattern y \<in> set eight_patterns"
    and xe: "pattern x \<in> set eight_patterns" by simp_all
  show ?case
  proof (cases "Less x y")
    case True
    have ny: "pattern y \<noteq> ''/''"
    proof
      assume a: "pattern y = ''/''"
      with ne have "pattern x \<noteq> ''/''" by simp
      from root_least[OF a xe this] True show False by simp
    qed
    with root True have in_rest: "''/'' \<in> pattern ` set (sink ys x)"
      by (auto simp: sink_snoc)
    have d': "distinct (map pattern (ys @ [x]))" using d by auto
    have e': "pattern ` set (ys @ [x]) \<subseteq> set eight_patterns" using e by auto
    have inv': "''/'' \<in> pattern ` set ys \<longrightarrow> pattern (hd ys) = ''/''"
    proof
      assume a: "''/'' \<in> pattern ` set ys"
      then have "ys \<noteq> []" by auto
      then have "hd (ys @ [y]) = hd ys" by simp
      with a inv show "pattern (hd ys) = ''/''" by auto
    qed
    from snoc.IH[OF d' e' inv' in_rest] True
    show ?thesis by (simp add: sink_snoc sink_not_Nil)
  next
    case nless: False
    have "pattern x \<noteq> ''/''"
    proof
      assume a: "pattern x = ''/''"
      with ne have "pattern y \<noteq> ''/''" by simp
      from root_least[OF a ye this] nless show False by simp
    qed
    with root nless have "''/'' \<in> pattern ` set (ys @ [y])" by (auto simp: sink_snoc)
    with inv have "pattern (hd (ys @ [y])) = ''/''" by blast
    moreover have "hd (ys @ [y, x]) = hd (ys @ [y])" by (cases ys) simp_all
    moreover from nless have "sink (ys @ [y]) x = ys @ [y, x]" by (simp add: sink_snoc)
    ultimately show ?thesis by simp
  qed
qed

lemma insertionSort_snoc: "insertionSort (xs @ [x]) = sink (insertionSort xs) x"
  by (simp add: insertionSort_def)

lemma set_insertionSort: "set (insertionSort xs) = set xs"
  using mset_insertionSort[of xs] by (metis set_mset_mset)

lemma distinct_pattern_insertionSort:
  "distinct (map pattern (insertionSort xs)) = distinct (map pattern xs)"
proof -
  have "mset (map pattern (insertionSort xs)) = mset (map pattern xs)"
    by (simp add: mset_insertionSort)
  then show ?thesis by (rule mset_eq_imp_distinct_iff)
qed

lemma insertionSort_ends:
  "distinct (map pattern xs) \<Longrightarrow> pattern ` set xs \<subseteq> set eight_patterns \<Longrightarrow>
   (''/'' \<in> pattern ` set xs \<longrightarrow> pattern (hd (insertionSort xs)) = ''/'')
   \<and> (''/:slug'' \<in> pattern ` set xs \<longrightarrow> pattern (last (insertionSort xs)) = ''/:slug'')"
proof (induction xs rule: rev_induct)
  case Nil
  then show ?case by simp
next
  case (snoc x xs)
  let ?ys = "insertionSort xs"
  from snoc.prems have "distinct (map pattern xs)" "pattern ` set xs \<subseteq> set eight_patterns"
    by simp_all
  from snoc.IH[OF this]
  have first: "''/'' \<in> pattern ` set ?ys \<longrightarrow> pattern (hd ?ys) = ''/''"
    and last: "''/:slug'' \<in> pattern ` set ?ys \<longrightarrow> pattern (last ?ys) = ''/:slug''"
    by (simp_all add: set_insertionSort)
  from snoc.prems(1) have d: "distinct (map pattern (?ys @ [x]))"
    by (simp add: distinct_pattern_insertionSort set_insertionSort)
  from snoc.prems(2) have e: "pattern ` set (?ys @ [x]) \<subseteq> set eight_patterns"
    by (simp add: set_insertionSort)
  have s: "set (sink ?ys x) = set (xs @ [x])"
    by (simp add: set_sink set_insertionSort)
  show ?case
    using sink_first_inv[OF d e first] sink_last_inv[OF d e last]
    by (simp only: insertionSort_snoc s) blast
qed

lemma routes_register_all:
  "mset (map pattern (routes (register_all regs r))) =
     mset (map pattern (routes r)) + mset (map (\<lambda>(m, p, h). p) regs)"
proof (induction regs arbitrary: r)
  case Nil
  then show ?case by (simp add: register_all_def)
next
  case (Cons reg regs)
  obtain m p h where reg: "reg = (m, p, h)" by (cases reg)
  have "register_all (reg # regs) r = register_all regs (Handle m p h r)"
    by (simp add: register_all_def reg)
  moreover have "mset (map pattern (routes (Handle m p h r))) =
      add_mset p (mset (map pattern (routes r)))"
    by (simp add: Handle_def sort_Sort_def mset_insertionSort new_route_sel)
  ultimately show ?case using Cons.IH[of "Handle m p h r"] by (simp add: reg)
qed


text \<open>
  Whatever routine sorts the table: an arrangement of the eight patterns in which no
  entry is \<open>Less\<close> than an earlier one starts with \<open>/\<close> and ends with \<open>/:slug\<close>.
\<close>

lemma sorted_eight_first_and_last:
  assumes m: "mset (map pattern t) = mset eight_patterns"
    and s: "sorted_wrt (\<lambda>a b. \<not> Less b a) t"
  shows "pattern (hd t) = ''/'' \<and> pattern (last t) = ''/:slug''"
proof -
  have "distinct eight_patterns" by (simp add: eight_patterns_def)
  with mset_eq_imp_distinct_iff[OF m] have d: "distinct (map pattern t)" by simp
  from m have e: "set (map pattern t) = set eight_patterns" by (rule mset_eq_setD)
  have ne: "t \<noteq> []"
  proof
    assume "t = []"
    with m show False by (simp add: eight_patterns_def)
  qed
  from e have e': "pattern ` set t = set eight_patterns" by simp
  have in8: "pattern (t ! k) \<in> set eight_patterns" if "k < length t" for k
    using that unfolding e'[symmetric] by simp
  have diff: "pattern (t ! i) \<noteq> pattern (t ! j)" if "i < j" "j < length t" for i j
    using d that by (simp add: distinct_conv_nth)
  have ord: "\<not> Less (t ! j) (t ! i)" if "i < j" "j < length t" for i j
    using s that by (simp add: sorted_wrt_iff_nth_less)
  have "''/'' \<in> pattern ` set t" by (simp add: e' eight_patterns_def)
  then obtain i where i: "i < length t" "pattern (t ! i) = ''/''"
    by (auto simp: in_set_conv_nth)
  have "i = 0"
  proof (rule ccontr)
    assume "i \<noteq> 0"
    then have lt: "0 < i" by simp
    from diff[OF lt i(1)] i(2) have "pattern (t ! 0) \<noteq> ''/''" by simp
    from root_least[OF i(2) in8 this] ne ord[OF lt i(1)] show False by simp
  qed
  with i ne have first: "pattern (hd t) = ''/''" by (simp add: hd_conv_nth)
  have "''/:slug'' \<in> pattern ` set t" by (simp add: e' eight_patterns_def)
  then obtain j where j: "j < length t" "pattern (t ! j) = ''/:slug''"
    by (auto simp: in_set_conv_nth)
  have "j = length t - 1"
  proof (rule ccontr)
    assume "j \<noteq> length t - 1"
    with j(1) have lt: "j < length t - 1" by simp
    with ne have l: "length t - 1 < length t" by simp
    from diff[OF lt l] j(2) have "pattern (t ! (length t - 1)) \<noteq> ''/:slug''" by simp
    from slug_greatest[OF j(2) in8[OF l] this] ord[OF lt l] show False by simp
  qed
  with j ne have "pattern (last t) = ''/:slug''" by (simp add: last_conv_nth)
  with first show ?thesis by simp
qed

text \<open>
  Claim C5: after every sequence of register and remove operations the order of the
  table is consistent with the precedence comparator, every pair of entries being
  ordered according to it, whatever the order of the insertions.

  The code does not keep this for two root-level parameters: after \<open>/:a\<close> and \<open>/:b\<close>
  are registered the table is \<open>/:b\<close>, \<open>/:a\<close>, and the comparator puts its second entry
  before its first (as it would put the first before the second in the other order).
\<close>

theorem table_of_two_root_parameters:
  "map pattern (routes (Handle ''GET'' ''/:b'' 3 (Handle ''GET'' ''/:a'' (2::nat) (NewRouter 0))))
     = [''/:b'', ''/:a'']
   \<and> Less (routes (Handle ''GET'' ''/:b'' 3 (Handle ''GET'' ''/:a'' (2::nat) (NewRouter 0))) ! 1)
           (routes (Handle ''GET'' ''/:b'' 3 (Handle ''GET'' ''/:a'' (2::nat) (NewRouter 0))) ! 0)"
  by code_simp

text \<open>
  Claim C6: in whatever order the eight routes \<open>/:slug\<close>, \<open>/\<close>, \<open>/cool\<close>,
  \<open>/cool/balloon\<close>, \<open>/cool/:slug\<close>, \<open>/cool/another\<close>, \<open>/rss/:ok\<close>, \<open>/rss.xml\<close> are
  registered, after sorting the pattern \<open>/\<close> is in the first place of the table and
  \<open>/:slug\<close> in the last.

  The registrations are any list of triples whose patterns are the eight, each once, with
  any methods and handlers, made on a new router.
\<close>

theorem eight_routes_first_and_last:
  assumes "mset (map (\<lambda>(m, p, h). p) regs) = mset eight_patterns"
  shows "length (routes (register_all regs (NewRouter nf))) = 8
     \<and> pattern (hd (routes (register_all regs (NewRouter nf)))) = ''/''
     \<and> pattern (last (routes (register_all regs (NewRouter nf)))) = ''/:slug''"
proof (cases regs rule: rev_cases)
  case Nil
  with assms show ?thesis by (simp add: eight_patterns_def)
next
  case (snoc regs' reg)
  obtain m p h where reg: "reg = (m, p, h)" by (cases reg)
  let ?r = "register_all regs' (NewRouter nf)"
  let ?xs = "routes ?r @ [new_route m p h]"
  let ?t = "routes (register_all regs (NewRouter nf))"
  have t: "?t = insertionSort ?xs"
    by (simp add: snoc reg register_all_def Handle_def sort_Sort_def)
  have "mset (map pattern ?t) = mset eight_patterns"
    using routes_register_all[of regs "NewRouter nf"] assms by (simp add: NewRouter_def)
  then have m: "mset (map pattern ?xs) = mset eight_patterns"
    by (simp add: t mset_insertionSort)
  have "distinct eight_patterns" by (simp add: eight_patterns_def)
  with mset_eq_imp_distinct_iff[OF m] have d: "distinct (map pattern ?xs)"
    by simp
  from m have e: "set (map pattern ?xs) = set eight_patterns" by (rule mset_eq_setD)
  then have e': "pattern ` set ?xs \<subseteq> set eight_patterns" by simp
  from e have "''/'' \<in> pattern ` set ?xs" "''/:slug'' \<in> pattern ` set ?xs"
    by (simp_all add: eight_patterns_def)
  with insertionSort_ends[OF d e']
  have "pattern (hd ?t) = ''/''" "pattern (last ?t) = ''/:slug''"
    unfolding t by blast+
  moreover have "length ?t = 8"
  proof -
    from m have "size (mset (map pattern ?xs)) = size (mset eight_patterns)" by simp
    then have "length ?xs = 8" by (simp add: eight_patterns_def)
    moreover have "size (mset ?t) = size (mset ?xs)" by (simp add: t mset_insertionSort)
    ultimately show ?thesis by simp
  qed
  ultimately show ?thesis by simp
qed


theorem eight_routes_first_and_last_witness:
  "length (routes (register_all
      [(''GET'', ''/:slug'', 2), (''GET'', ''/'', 3), (''GET'', ''/cool/balloon'', 4),
       (''GET'', ''/cool/:slug'', 5), (''GET'', ''/cool/another'', 6), (''GET'', ''/rss/:ok'', 7),
       (''GET'', ''/cool'', 8), (''GET'', ''/rss.xml'', 9::nat)] (NewRouter 0))) = 8
   \<and> pattern (hd (routes (register_all
      [(''GET'', ''/:slug'', 2), (''GET'', ''/'', 3), (''GET'', ''/cool/balloon'', 4),
       (''GET'', ''/cool/:slug'', 5), (''GET'', ''/cool/another'', 6), (''GET'', ''/rss/:ok'', 7),
       (''GET'', ''/cool'', 8), (''GET'', ''/rss.xml'', 9::nat)] (NewRouter 0)))) = ''/''
   \<and> pattern (last (routes (register_all
      [(''GET'', ''/:slug'', 2), (''GET'', ''/'', 3), (''GET'', ''/cool/balloon'', 4),
       (''GET'', ''/cool/:slug'', 5), (''GET'', ''/cool/another'', 6), (''GET'', ''/rss/:ok'', 7),
       (''GET'', ''/cool'', 8), (''GET'', ''/rss.xml'', 9::nat)] (NewRouter 0)))) = ''/:slug''"
  using eight_routes_first_and_last[of
      "[(''GET'', ''/:slug'', 2), (''GET'', ''/'', 3), (''GET'', ''/cool/balloon'', 4),
       (''GET'', ''/cool/:slug'', 5), (''GET'', ''/cool/another'', 6), (''GET'', ''/rss/:ok'', 7),
       (''GET'', ''/cool'', 8), (''GET'', ''/rss.xml'', 9::nat)]" 0]
  by (simp add: eight_patterns_def)

section \<open>Dispatch\<close>

lemma ServeHTTP_loop_find:
  "ServeHTTP_loop r req meth reqsegs rts =
     (case List.find (\<lambda>rt. (route_method rt = meth \<or> route_method rt = ''*'')
                              \<and> match rt (Context req) reqsegs \<noteq> None) rts of
        None \<Rightarrow> [NotFound_ServeHTTP (NotFound r) req]
      | Some rt \<Rightarrow> [Handler_ServeHTTP (handler rt)
                      (req\<lparr>Context := the (match rt (Context req) reqsegs)\<rparr>)])"
  by (induction rts) (auto split: option.splits)

lemma matches_iff:
  "matches rt req \<longleftrightarrow>
     (route_method rt = strings_ToLower (Method req) \<or> route_method rt = ''*'')
     \<and> match rt (Context req) (pathSegments (Path req)) \<noteq> None"
  by (simp add: matches_def considered_def split: option.splits)

lemma ServeHTTP_find:
  "ServeHTTP r req =
     (case List.find (\<lambda>rt. matches rt req) (routes r) of
        None \<Rightarrow> [NotFound_ServeHTTP (NotFound r) req]
      | Some rt \<Rightarrow> [Handler_ServeHTTP (handler rt)
                      (req\<lparr>Context := the (match rt (Context req) (pathSegments (Path req)))\<rparr>)])"
  unfolding ServeHTTP_def matches_iff by (rule ServeHTTP_loop_find)

lemma find_matches_Some:
  assumes "List.find (\<lambda>rt. matches rt req) (routes r) = Some rt"
  obtains c where "match rt (Context req) (pathSegments (Path req)) = Some c"
proof -
  from assms have "matches rt req" by (auto simp: find_Some_iff)
  then show ?thesis using that by (auto simp: matches_iff)
qed

text \<open>
  Claim C7: every dispatch call terminates, and either exactly one registered handler is
  invoked, the one of the first matching route in table order, with that route's
  bindings, or the fallback handler is invoked exactly once; never both, never more.

  \<open>ServeHTTP\<close> is a total function whose value is the list of the calls it makes. When a
  route of the table matches the request, the list is the one call of the handler of the
  first such route, with the context that \<open>match\<close> returned for it; when none does, it is
  the one call of \<open>NotFound\<close> with the request as it came.
\<close>

theorem ServeHTTP_one_call:
  "(\<exists>rt c. List.find (\<lambda>rt. matches rt req) (routes r) = Some rt
            \<and> match rt (Context req) (pathSegments (Path req)) = Some c
            \<and> ServeHTTP r req = [Handler_ServeHTTP (handler rt) (req\<lparr>Context := c\<rparr>)])
   \<or> (List.find (\<lambda>rt. matches rt req) (routes r) = None
       \<and> ServeHTTP r req = [NotFound_ServeHTTP (NotFound r) req])"
proof (cases "List.find (\<lambda>rt. matches rt req) (routes r)")
  case None
  then show ?thesis by (simp add: ServeHTTP_find)
next
  case (Some rt)
  then obtain c where "match rt (Context req) (pathSegments (Path req)) = Some c"
    by (rule find_matches_Some)
  with Some show ?thesis by (simp add: ServeHTTP_find)
qed

lemma ServeHTTP_single:
  "ServeHTTP (Handle m p h (NewRouter nf)) req =
     (if strings_ToLower m = strings_ToLower (Method req) \<or> m = ''*''
      then (case match (new_route m p h) (Context req) (pathSegments (Path req)) of
              Some c \<Rightarrow> [Handler_ServeHTTP h (req\<lparr>Context := c\<rparr>)]
            | None \<Rightarrow> [NotFound_ServeHTTP nf req])
      else [NotFound_ServeHTTP nf req])"
  by (simp add: ServeHTTP_def Handle_def NewRouter_def sort_Sort_single new_route_sel
      strings_ToLower_star split: option.splits)

lemma match_methodcase:
  "match (new_route m ''/methodcase'' h) c (pathSegments ''/methodcase'') = Some c"
  "match (new_route m ''/method1'' h) c (pathSegments ''/method1'') = Some c"
  by (simp_all add: match_def new_route_def pathSegments_def strings_Trim_def strings_HasPrefix_def
      strings_HasSuffix_def strings_TrimPrefix_def suffix_to_prefix)

lemma strings_ToLower_examples:
  "strings_ToLower ''get'' = ''get''"
  "strings_ToLower ''Get'' = ''get''"
  "strings_ToLower ''GET'' = ''get''"
  "strings_ToLower ''POST'' = ''post''"
  by code_simp+

lemma ServeHTTP_single_fold:
  "ServeHTTP (Handle m p h (NewRouter nf)) req =
     (if equal_ignoring_case m (Method req) \<or> m = ''*''
      then (case match (new_route m p h) (Context req) (pathSegments (Path req)) of
              Some c \<Rightarrow> [Handler_ServeHTTP h (req\<lparr>Context := c\<rparr>)]
            | None \<Rightarrow> [NotFound_ServeHTTP nf req])
      else [NotFound_ServeHTTP nf req])"
  by (simp only: ServeHTTP_single strings_ToLower_eq_iff)

text \<open>
  Claim C8: method matching ignores case on both sides and the sentinel \<open>*\<close> matches
  every request method: a route registered with method \<open>m\<close> is considered for a request
  with method \<open>m'\<close> exactly when \<open>lower m = lower m'\<close> or \<open>m\<close> is \<open>*\<close>; and the dispatch
  results for \<open>GET\<close>, \<open>POST\<close> and \<open>PUT\<close> against a route registered with \<open>*\<close> are the
  same.

  For method names of ASCII characters and a table holding the one route: the request
  reaches \<open>match\<close> exactly when the two names are equal up to case or the registered one
  is the sentinel, and goes to the fallback otherwise; for the sentinel, the handler
  called and the bindings it gets are the same for the three methods. A route registered
  as \<open>get\<close> serves \<open>GET\<close>, one registered as \<open>Get\<close> serves \<open>get\<close>, and one registered as
  \<open>GET\<close> does not serve \<open>POST\<close>.
\<close>

theorem method_matching:
  assumes "ascii_string m" and "ascii_string (Method req)"
  shows "ServeHTTP (Handle m p h (NewRouter nf)) req =
     (if equal_ignoring_case m (Method req) \<or> m = ''*''
      then (case match (new_route m p h) (Context req) (pathSegments (Path req)) of
              Some c \<Rightarrow> [Handler_ServeHTTP h (req\<lparr>Context := c\<rparr>)]
            | None \<Rightarrow> [NotFound_ServeHTTP nf req])
      else [NotFound_ServeHTTP nf req])
   \<and> map outcome (ServeHTTP (Handle ''*'' p h (NewRouter nf)) (req\<lparr>Method := ''GET''\<rparr>))
       = map outcome (ServeHTTP (Handle ''*'' p h (NewRouter nf)) (req\<lparr>Method := ''POST''\<rparr>))
   \<and> map outcome (ServeHTTP (Handle ''*'' p h (NewRouter nf)) (req\<lparr>Method := ''GET''\<rparr>))
       = map outcome (ServeHTTP (Handle ''*'' p h (NewRouter nf)) (req\<lparr>Method := ''PUT''\<rparr>))
   \<and> ServeHTTP (Handle ''get'' ''/methodcase'' h (NewRouter nf))
         \<lparr>Method = ''GET'', Path = ''/methodcase'', Context = c0\<rparr>
       = [Handler_ServeHTTP h \<lparr>Method = ''GET'', Path = ''/methodcase'', Context = c0\<rparr>]
   \<and> ServeHTTP (Handle ''Get'' ''/methodcase'' h (NewRouter nf))
         \<lparr>Method = ''get'', Path = ''/methodcase'', Context = c0\<rparr>
       = [Handler_ServeHTTP h \<lparr>Method = ''get'', Path = ''/methodcase'', Context = c0\<rparr>]
   \<and> ServeHTTP (Handle ''GET'' ''/method1'' h (NewRouter nf))
         \<lparr>Method = ''POST'', Path = ''/method1'', Context = c0\<rparr>
       = [NotFound_ServeHTTP nf \<lparr>Method = ''POST'', Path = ''/method1'', Context = c0\<rparr>]"
proof (intro conjI)
  show "ServeHTTP (Handle m p h (NewRouter nf)) req =
     (if equal_ignoring_case m (Method req) \<or> m = ''*''
      then (case match (new_route m p h) (Context req) (pathSegments (Path req)) of
              Some c \<Rightarrow> [Handler_ServeHTTP h (req\<lparr>Context := c\<rparr>)]
            | None \<Rightarrow> [NotFound_ServeHTTP nf req])
      else [NotFound_ServeHTTP nf req])"
    by (rule ServeHTTP_single_fold)
qed (simp_all add: ServeHTTP_single outcome_def match_methodcase strings_ToLower_examples
    split: option.splits)

theorem method_matching_witness:
  "ServeHTTP (Handle ''Get'' ''/methodcase'' (5::nat) (NewRouter 0))
      \<lparr>Method = ''gET'', Path = ''/methodcase'', Context = Map.empty\<rparr>
    = [Handler_ServeHTTP 5 \<lparr>Method = ''gET'', Path = ''/methodcase'', Context = Map.empty\<rparr>]"
proof -
  let ?req = "\<lparr>Method = ''gET'', Path = ''/methodcase'', Context = Map.empty\<rparr>"
  have a: "ascii_string ''Get''" by code_simp
  have b: "ascii_string (Method ?req)" by code_simp
  have e: "equal_ignoring_case ''Get'' ''gET''" by code_simp
  from method_matching[OF a b, of "''/methodcase''" 5 0, THEN conjunct1] e
  show ?thesis by (simp add: match_methodcase)
qed

section \<open>Matching\<close>

lemma match_loop_step:
  "i < length reqsegs \<Longrightarrow>
   match_loop (seg # rest) i reqsegs c =
     (if is_param seg then match_loop rest (Suc i) reqsegs (c(drop 1 seg \<mapsto> reqsegs ! i))
      else if is_prefix_literal seg \<and> strings_HasPrefix (reqsegs ! i) (stem seg) then Some c
      else if seg \<noteq> reqsegs ! i then None
      else match_loop rest (Suc i) reqsegs c)"
  by (simp add: is_param_def is_prefix_literal_def stem_def strings_TrimPrefix_def Let_def)

lemma match_loop_prefix_literal:
  "k < length ps \<Longrightarrow> i + k < length reqsegs \<Longrightarrow> is_prefix_literal (ps ! k) \<Longrightarrow>
   strings_HasPrefix (reqsegs ! (i + k)) (stem (ps ! k)) \<Longrightarrow>
   \<forall>j<k. is_param (ps ! j) \<or> ps ! j = reqsegs ! (i + j) \<Longrightarrow>
   \<exists>c'. match_loop ps i reqsegs c = Some c'"
proof (induction ps arbitrary: i k c)
  case Nil
  then show ?case by simp
next
  case (Cons seg rest)
  from Cons.prems(2) have i: "i < length reqsegs" by simp
  show ?case
  proof (cases k)
    case 0
    with Cons.prems show ?thesis
      by (simp add: match_loop_step[OF i] is_prefix_literal_def del: match_loop.simps)
  next
    case (Suc k')
    have step: "\<exists>y. match_loop rest (Suc i) reqsegs c' = Some y" for c'
    proof (rule Cons.IH[of k' "Suc i"])
      show "k' < length rest" using Cons.prems(1) Suc by simp
      show "Suc i + k' < length reqsegs" using Cons.prems(2) Suc by simp
      show "is_prefix_literal (rest ! k')" using Cons.prems(3) Suc by simp
      show "strings_HasPrefix (reqsegs ! (Suc i + k')) (stem (rest ! k'))"
        using Cons.prems(4) Suc by simp
      show "\<forall>j<k'. is_param (rest ! j) \<or> rest ! j = reqsegs ! (Suc i + j)"
      proof (intro allI impI)
        fix j assume "j < k'"
        then have "Suc j < k" using Suc by simp
        with Cons.prems(5) have "is_param ((seg # rest) ! Suc j) \<or> (seg # rest) ! Suc j = reqsegs ! (i + Suc j)"
          by blast
        then show "is_param (rest ! j) \<or> rest ! j = reqsegs ! (Suc i + j)" by simp
      qed
    qed
    from Cons.prems(5) Suc have "is_param seg \<or> seg = reqsegs ! i"
      by force
    then show ?thesis
      by (auto simp: match_loop_step[OF i] step simp del: match_loop.simps)
  qed
qed

lemma literal_step:
  "\<not> is_param seg \<Longrightarrow> \<not> strings_HasSuffix seg ''...'' \<Longrightarrow> i < length reqsegs \<Longrightarrow>
   match_loop (seg # rest) i reqsegs c = (if seg = reqsegs ! i then match_loop rest (Suc i) reqsegs c else None)"
  by (simp add: match_loop_step is_prefix_literal_def del: match_loop.simps)

lemma match_loop_literal:
  "list_all (\<lambda>seg. \<not> is_param seg \<and> \<not> strings_HasSuffix seg ''...'') ps \<Longrightarrow>
   match_loop ps i reqsegs c = (if prefix ps (drop i reqsegs) then Some c else None)"
proof (induction ps arbitrary: i)
  case Nil
  then show ?case by simp
next
  case (Cons seg rest)
  show ?case
  proof (cases "i < length reqsegs")
    case True
    then have d: "drop i reqsegs = reqsegs ! i # drop (Suc i) reqsegs"
      by (simp add: Cons_nth_drop_Suc)
    from Cons.prems have "\<not> is_param seg" "\<not> strings_HasSuffix seg ''...''"
      and rest: "list_all (\<lambda>seg. \<not> is_param seg \<and> \<not> strings_HasSuffix seg ''...'') rest"
      by simp_all
    then show ?thesis
      by (simp add: literal_step[OF _ _ True] Cons.IH[OF rest] d del: match_loop.simps)
  next
    case False
    then show ?thesis by simp
  qed
qed

lemma match_literal:
  assumes "list_all (\<lambda>seg. \<not> is_param seg \<and> \<not> strings_HasSuffix seg ''...'') (segs rt)"
  shows "match rt c reqsegs =
     (if reqsegs = segs rt \<or> (prefix_route rt \<and> prefix (segs rt) reqsegs) then Some c else None)"
proof -
  have "prefix (segs rt) reqsegs \<Longrightarrow> length reqsegs \<le> length (segs rt) \<Longrightarrow> reqsegs = segs rt"
    by (metis prefix_length_le le_antisym prefix_length_prefix prefix_order.order_refl prefix_order.antisym)
  then show ?thesis
    by (auto simp: match_def match_loop_literal[OF assms])
qed

lemma match_longer:
  "length reqsegs > length (segs rt) \<Longrightarrow> \<not> prefix_route rt \<Longrightarrow> match rt c reqsegs = None"
  by (simp add: match_def)

text \<open>
  Claim C3: when a pattern has a prefix-literal segment and the request's segment at that
  position starts with its stem, the earlier segments matching, the whole route matches
  at once, however many request segments remain and whatever pattern segments remain,
  also when the prefix literal is not the pattern's last segment and the request has
  more segments than the pattern.

  The last part fails: \<open>match\<close> first rejects a request with more segments than the
  pattern unless the route is a prefix route, and a pattern whose prefix literal is not
  its last segment is a prefix route only if it ends in \<open>/\<close>. For \<open>/a.../b\<close> the path
  \<open>/abc/x/y\<close> is rejected although \<open>abc\<close> starts with the stem \<open>a\<close>.
\<close>

theorem prefix_literal_rejected_when_longer:
  "is_prefix_literal (segs (new_route ''GET'' ''/a.../b'' (2::nat)) ! 0)
   \<and> strings_HasPrefix (pathSegments ''/abc/x/y'' ! 0)
         (stem (segs (new_route ''GET'' ''/a.../b'' (2::nat)) ! 0))
   \<and> match (new_route ''GET'' ''/a.../b'' (2::nat)) Map.empty (pathSegments ''/abc/x/y'') = None"
  by (simp add: match_def new_route_def pathSegments_def strings_Trim_def strings_HasPrefix_def
      strings_HasSuffix_def strings_TrimPrefix_def suffix_to_prefix is_prefix_literal_def
      is_param_def stem_def)

text \<open>
  Claim C3 as amended: under the same conditions the whole route matches, whatever
  pattern segments remain, exactly when the request has no more segments than the pattern
  or the route is a prefix route (its pattern ends in \<open>/\<close> or in \<open>...\<close>); then any
  number of request segments may remain. A request with more segments than a pattern
  that is not a prefix route is rejected before the walk, whatever the segments are. An
  earlier segment matches when it is a parameter or equal to the request's segment.
\<close>

theorem prefix_literal_accepts:
  assumes "k < length (pathSegments p)" and "k < length (pathSegments path)"
    and "is_prefix_literal (pathSegments p ! k)"
    and "strings_HasPrefix (pathSegments path ! k) (stem (pathSegments p ! k))"
    and "\<forall>j<k. is_param (pathSegments p ! j) \<or> pathSegments p ! j = pathSegments path ! j"
  shows "((\<exists>c'. match (new_route m p h) c (pathSegments path) = Some c') \<longleftrightarrow>
            (length (pathSegments path) \<le> length (pathSegments p)
             \<or> strings_HasSuffix p ''/'' \<or> strings_HasSuffix p ''...''))
         \<and> (length (pathSegments q) < length (pathSegments path')
              \<and> \<not> prefix_route (new_route m q h) \<longrightarrow>
              match (new_route m q h) c (pathSegments path') = None)"
proof (intro conjI impI)
  have walk: "\<exists>c'. match_loop (pathSegments p) 0 (pathSegments path) c = Some c'"
    using assms by (intro match_loop_prefix_literal[of k]) simp_all
  show "(\<exists>c'. match (new_route m p h) c (pathSegments path) = Some c') \<longleftrightarrow>
            (length (pathSegments path) \<le> length (pathSegments p)
             \<or> strings_HasSuffix p ''/'' \<or> strings_HasSuffix p ''...'')"
    using walk by (auto simp: match_def new_route_sel)
next
  assume "length (pathSegments q) < length (pathSegments path') \<and> \<not> prefix_route (new_route m q h)"
  then show "match (new_route m q h) c (pathSegments path') = None"
    by (intro match_longer) (simp_all add: new_route_sel)
qed

theorem prefix_literal_accepts_witness:
  "(\<exists>c'. match (new_route ''GET'' ''/files/x.../more'' (2::nat)) Map.empty
           (pathSegments ''/files/xyz'') = Some c')
   \<and> match (new_route ''GET'' ''/files/x.../more'' (2::nat)) Map.empty
           (pathSegments ''/files/xyz/1/2'') = None"
proof -
  let ?p = "''/files/x.../more''"
  have k: "1 < length (pathSegments ?p)" by code_simp
  have lit: "is_prefix_literal (pathSegments ?p ! 1)" by code_simp
  have nopre: "\<not> strings_HasSuffix ?p ''/''" "\<not> strings_HasSuffix ?p ''...''" by code_simp+
  have s1: "1 < length (pathSegments ''/files/xyz'')" by code_simp
  have p1: "strings_HasPrefix (pathSegments ''/files/xyz'' ! 1) (stem (pathSegments ?p ! 1))"
    by code_simp
  have "is_param (pathSegments ?p ! 0) \<or> pathSegments ?p ! 0 = pathSegments ''/files/xyz'' ! 0"
    by code_simp
  then have e1: "\<forall>j<1. is_param (pathSegments ?p ! j)
      \<or> pathSegments ?p ! j = pathSegments ''/files/xyz'' ! j"
    by simp
  have l1: "length (pathSegments ''/files/xyz'') \<le> length (pathSegments ?p)" by code_simp
  have s2: "1 < length (pathSegments ''/files/xyz/1/2'')" by code_simp
  have p2: "strings_HasPrefix (pathSegments ''/files/xyz/1/2'' ! 1) (stem (pathSegments ?p ! 1))"
    by code_simp
  have "is_param (pathSegments ?p ! 0) \<or> pathSegments ?p ! 0 = pathSegments ''/files/xyz/1/2'' ! 0"
    by code_simp
  then have e2: "\<forall>j<1. is_param (pathSegments ?p ! j)
      \<or> pathSegments ?p ! j = pathSegments ''/files/xyz/1/2'' ! j"
    by simp
  have l2: "\<not> length (pathSegments ''/files/xyz/1/2'') \<le> length (pathSegments ?p)" by code_simp
  from prefix_literal_accepts[OF k s1 lit p1 e1, of "''GET''" "2::nat" Map.empty, THEN conjunct1] l1
  have a: "\<exists>c'. match (new_route ''GET'' ?p (2::nat)) Map.empty (pathSegments ''/files/xyz'') = Some c'"
    by simp
  from prefix_literal_accepts[OF k s2 lit p2 e2, of "''GET''" "2::nat" Map.empty, THEN conjunct1]
    l2 nopre
  have b: "match (new_route ''GET'' ?p (2::nat)) Map.empty (pathSegments ''/files/xyz/1/2'') = None"
    by simp
  from a b show ?thesis by simp
qed

text \<open>
  Claim C4: a pattern with no parameter segment matches a request path if and only if
  the request's trimmed segments are those of the pattern, or the pattern is a declared
  prefix route and the request's segments extend the pattern's; in particular a request
  with fewer segments than a non-prefix pattern never matches it, and neither does one
  with more.

  A pattern with a prefix-literal segment has no parameter segment, and for it this
  fails: \<open>/a.../b\<close> is not a prefix route and \<open>/abc\<close> has fewer segments, other ones,
  and matches, since \<open>abc\<close> starts with the stem \<open>a\<close>.
\<close>

theorem prefix_literal_matches_shorter_path:
  "list_all (\<lambda>seg. \<not> is_param seg) (pathSegments ''/a.../b'')
   \<and> \<not> prefix_route (new_route ''GET'' ''/a.../b'' (2::nat))
   \<and> length (pathSegments ''/abc'') < length (pathSegments ''/a.../b'')
   \<and> pathSegments ''/abc'' \<noteq> pathSegments ''/a.../b''
   \<and> match (new_route ''GET'' ''/a.../b'' (2::nat)) Map.empty (pathSegments ''/abc'')
       = Some Map.empty"
  by (simp add: match_def new_route_def pathSegments_def strings_Trim_def strings_HasPrefix_def
      strings_HasSuffix_def strings_TrimPrefix_def suffix_to_prefix is_prefix_literal_def
      is_param_def stem_def)

text \<open>
  Claim C4 as amended: a pattern all of whose segments are literals (none a parameter,
  none a prefix literal) matches a request path if and only if the request's trimmed
  segments are those of the pattern, or the pattern is a declared prefix route and the
  request's segments extend the pattern's; the bindings are left as they were. In
  particular a request with fewer segments never matches such a pattern; and a request
  with more segments than a pattern that is not a prefix route never matches it,
  whatever its segments are.
\<close>

theorem match_literal_pattern:
  assumes "list_all (\<lambda>seg. \<not> is_param seg \<and> \<not> is_prefix_literal seg) (pathSegments p)"
  shows "match (new_route m p h) c (pathSegments path) =
           (if pathSegments path = pathSegments p
               \<or> (prefix_route (new_route m p h) \<and> prefix (pathSegments p) (pathSegments path))
            then Some c else None)
         \<and> (length (pathSegments path) < length (pathSegments p) \<longrightarrow>
              match (new_route m p h) c (pathSegments path) = None)
         \<and> (length (pathSegments q) < length (pathSegments path)
              \<and> \<not> prefix_route (new_route m q h) \<longrightarrow>
              match (new_route m q h) c (pathSegments path) = None)"
proof -
  from assms have lit: "list_all (\<lambda>seg. \<not> is_param seg \<and> \<not> strings_HasSuffix seg ''...'')
      (segs (new_route m p h))"
    by (auto simp: new_route_sel is_prefix_literal_def list_all_iff)
  have eq: "match (new_route m p h) c (pathSegments path) =
           (if pathSegments path = pathSegments p
               \<or> (prefix_route (new_route m p h) \<and> prefix (pathSegments p) (pathSegments path))
            then Some c else None)"
    using match_literal[OF lit, of c "pathSegments path"] by (simp add: new_route_sel)
  have fewer: "match (new_route m p h) c (pathSegments path) = None"
    if "length (pathSegments path) < length (pathSegments p)"
  proof -
    from that have "pathSegments path \<noteq> pathSegments p"
      and "\<not> prefix (pathSegments p) (pathSegments path)"
      by (auto dest: prefix_length_le)
    then show ?thesis by (simp add: eq)
  qed
  have more: "match (new_route m q h) c (pathSegments path) = None"
    if "length (pathSegments q) < length (pathSegments path)" "\<not> prefix_route (new_route m q h)"
    using that by (intro match_longer) (simp_all add: new_route_sel)
  from eq fewer more show ?thesis by blast
qed

theorem match_literal_pattern_witness:
  "match (new_route ''GET'' ''/prefix/'' (2::nat)) Map.empty (pathSegments ''/prefix/anything/else'')
     = Some Map.empty
   \<and> match (new_route ''GET'' ''/not/enough/items'' (2::nat)) Map.empty (pathSegments ''/not/enough'')
     = None
   \<and> match (new_route ''GET'' ''/not-prefix'' (2::nat)) Map.empty
        (pathSegments ''/not-prefix/anything/else'') = None"
proof (intro conjI)
  have lit: "list_all (\<lambda>seg. \<not> is_param seg \<and> \<not> is_prefix_literal seg) (pathSegments ''/prefix/'')"
    by code_simp
  have cond: "pathSegments ''/prefix/anything/else'' = pathSegments ''/prefix/''
      \<or> (prefix_route (new_route ''GET'' ''/prefix/'' (2::nat))
          \<and> prefix (pathSegments ''/prefix/'') (pathSegments ''/prefix/anything/else''))"
    by code_simp
  from match_literal_pattern[OF lit, of "''GET''" "2::nat" Map.empty "''/prefix/anything/else''",
      THEN conjunct1] cond
  show "match (new_route ''GET'' ''/prefix/'' (2::nat)) Map.empty
          (pathSegments ''/prefix/anything/else'') = Some Map.empty"
    by simp
next
  have lit: "list_all (\<lambda>seg. \<not> is_param seg \<and> \<not> is_prefix_literal seg)
      (pathSegments ''/not/enough/items'')"
    by code_simp
  have fewer: "length (pathSegments ''/not/enough'') < length (pathSegments ''/not/enough/items'')"
    by code_simp
  from match_literal_pattern[OF lit, of "''GET''" "2::nat" Map.empty "''/not/enough''",
      THEN conjunct2, THEN conjunct1] fewer
  show "match (new_route ''GET'' ''/not/enough/items'' (2::nat)) Map.empty
          (pathSegments ''/not/enough'') = None"
    by simp
next
  have lit: "list_all (\<lambda>seg. \<not> is_param seg \<and> \<not> is_prefix_literal seg)
      (pathSegments ''/not-prefix'')"
    by code_simp
  have more: "length (pathSegments ''/not-prefix'') < length (pathSegments ''/not-prefix/anything/else'')
      \<and> \<not> prefix_route (new_route ''GET'' ''/not-prefix'' (2::nat))"
    by code_simp
  from match_literal_pattern[OF lit, of "''GET''" "2::nat" Map.empty "''/not-prefix/anything/else''"
      "''/not-prefix''", THEN conjunct2, THEN conjunct2] more
  show "match (new_route ''GET'' ''/not-prefix'' (2::nat)) Map.empty
          (pathSegments ''/not-prefix/anything/else'') = None"
    by simp
qed

section \<open>Parameters\<close>

lemma match_loop_bound_params:
  "match_loop ps i reqsegs c = Some c' \<Longrightarrow>
   c' = c ++ map_of (rev (bound_params ps (drop i reqsegs)))"
proof (induction ps arbitrary: i c)
  case Nil
  then show ?case by simp
next
  case (Cons seg rest)
  from Cons.prems have i: "i < length reqsegs"
    by (auto split: if_splits)
  then have d: "drop i reqsegs = reqsegs ! i # drop (Suc i) reqsegs"
    by (simp add: Cons_nth_drop_Suc)
  show ?case
  proof (cases "is_param seg")
    case True
    with Cons.prems i have "match_loop rest (Suc i) reqsegs (c(drop 1 seg \<mapsto> reqsegs ! i)) = Some c'"
      by (simp add: is_param_def strings_TrimPrefix_def Let_def)
    from Cons.IH[OF this] True show ?thesis
      by (simp add: d map_add_snoc del: fun_upd_apply)
  next
    case False
    show ?thesis
    proof (cases "is_prefix_literal seg \<and> strings_HasPrefix (reqsegs ! i) (stem seg)")
      case True
      with Cons.prems i False show ?thesis
        by (simp add: d is_param_def is_prefix_literal_def stem_def Let_def)
    next
      case nolit: False
      with Cons.prems i False have "match_loop rest (Suc i) reqsegs c = Some c'"
        by (auto simp: is_param_def is_prefix_literal_def stem_def Let_def split: if_splits)
      from Cons.IH[OF this] False nolit show ?thesis
        by (auto simp: d)
    qed
  qed
qed

lemma ServeHTTP_bound_params:
  "ServeHTTP r req =
     (case List.find (\<lambda>rt. matches rt req) (routes r) of
        None \<Rightarrow> [NotFound_ServeHTTP (NotFound r) req]
      | Some rt \<Rightarrow> [Handler_ServeHTTP (handler rt)
           (req\<lparr>Context := Context req ++
                 map_of (rev (bound_params (segs rt) (pathSegments (Path req))))\<rparr>)])"
proof (cases "List.find (\<lambda>rt. matches rt req) (routes r)")
  case None
  then show ?thesis by (simp add: ServeHTTP_find)
next
  case (Some rt)
  then obtain c where c: "match rt (Context req) (pathSegments (Path req)) = Some c"
    by (rule find_matches_Some)
  then have "match_loop (segs rt) 0 (pathSegments (Path req)) (Context req) = Some c"
    by (simp add: match_def split: if_splits)
  from match_loop_bound_params[OF this]
  have "c = Context req ++ map_of (rev (bound_params (segs rt) (pathSegments (Path req))))"
    by simp
  with Some c show ?thesis by (simp add: ServeHTTP_find)
qed

lemma bound_params_names:
  "(n, v) \<in> set (bound_params ps rs) \<Longrightarrow> CHR '':'' # n \<in> set ps"
proof (induction ps rs rule: bound_params.induct)
  case (3 seg rest r rs)
  have "is_param seg \<Longrightarrow> seg = CHR '':'' # drop 1 seg"
    by (cases seg) (auto simp: is_param_def strings_HasPrefix_def)
  with 3 show ?case by (auto split: if_splits)
qed simp_all

lemma match_path_param_any:
  "match (new_route m ''/path-param/:id'' h) c0 (pathSegments ''/path-param/123'')
     = Some (c0(''id'' \<mapsto> ''123''))"
  by (simp add: match_def new_route_def pathSegments_def strings_Trim_def strings_HasPrefix_def
      strings_HasSuffix_def strings_TrimPrefix_def suffix_to_prefix)

lemma match_q:
  "match (new_route m ''/q'' h) c0 (pathSegments ''/q'') = Some c0"
  by (simp add: match_def new_route_def pathSegments_def strings_Trim_def strings_HasPrefix_def
      strings_HasSuffix_def strings_TrimPrefix_def suffix_to_prefix)

text \<open>
  Claim C9: a parameter segment binds the raw request segment under the parameter's name
  and retrieval never fails: dispatching \<open>/path-param/123\<close> against the pattern
  \<open>/path-param/:id\<close> matches and makes \<open>Param\<close> return \<open>123\<close> for \<open>id\<close> inside the
  handler, and for every name that the matched route does not bind \<open>Param\<close> returns the
  empty string, without an error.

  The last part fails for a request that arrives with a value under the name: the
  bindings are put on top of the request's context, so the route \<open>/q\<close>, which binds
  nothing, lets the handler read \<open>before\<close> under \<open>id\<close> when the request came with it.
\<close>

theorem Param_keeps_incoming_binding:
  "bound_params (segs (new_route ''GET'' ''/q'' (5::nat))) (pathSegments ''/q'') = []
   \<and> ServeHTTP (Handle ''GET'' ''/q'' (5::nat) (NewRouter 0))
        \<lparr>Method = ''GET'', Path = ''/q'', Context = [''id'' \<mapsto> ''before'']\<rparr>
      = [Handler_ServeHTTP 5
           \<lparr>Method = ''GET'', Path = ''/q'', Context = [''id'' \<mapsto> ''before'']\<rparr>]
   \<and> Param [''id'' \<mapsto> ''before''] ''id'' = ''before''"
proof (intro conjI)
  show "bound_params (segs (new_route ''GET'' ''/q'' (5::nat))) (pathSegments ''/q'') = []"
    by code_simp
  show "ServeHTTP (Handle ''GET'' ''/q'' (5::nat) (NewRouter 0))
        \<lparr>Method = ''GET'', Path = ''/q'', Context = [''id'' \<mapsto> ''before'']\<rparr>
      = [Handler_ServeHTTP 5
           \<lparr>Method = ''GET'', Path = ''/q'', Context = [''id'' \<mapsto> ''before'']\<rparr>]"
    by (simp add: ServeHTTP_single match_q)
  show "Param [''id'' \<mapsto> ''before''] ''id'' = ''before''"
    by (simp add: Param_def)
qed

text \<open>
  Claim C9 as amended: dispatching \<open>/path-param/123\<close> against \<open>/path-param/:id\<close> matches
  and makes \<open>Param\<close> return \<open>123\<close> for \<open>id\<close> inside the handler, whatever the request's
  context held; for every name bound by the walk of the matched route \<open>Param\<close> returns
  the request segment bound to it (the last one, if the name is bound twice); for every
  name not bound by that walk \<open>Param\<close> returns what it returned on the incoming request,
  which is the empty string when the request arrived with no value under the name.
  \<open>Param\<close> is a total function into the strings: there is no error.
\<close>

theorem Param_bound_and_unbound:
  "(ServeHTTP (Handle ''GET'' ''/path-param/:id'' h (NewRouter nf))
        \<lparr>Method = ''GET'', Path = ''/path-param/123'', Context = c0\<rparr>
      = [Handler_ServeHTTP h
           \<lparr>Method = ''GET'', Path = ''/path-param/123'', Context = c0(''id'' \<mapsto> ''123'')\<rparr>]
     \<and> Param (c0(''id'' \<mapsto> ''123'')) ''id'' = ''123'')
   \<and> (\<forall>r req rt name.
        List.find (\<lambda>rt. matches rt req) (routes r) = Some (rt :: 'h route) \<longrightarrow>
        (\<exists>q. ServeHTTP r req = [Handler_ServeHTTP (handler rt) q]
           \<and> (\<forall>v. map_of (rev (bound_params (segs rt) (pathSegments (Path req)))) name = Some v
                  \<longrightarrow> Param (Context q) name = v)
           \<and> (name \<notin> fst ` set (bound_params (segs rt) (pathSegments (Path req)))
                  \<longrightarrow> Param (Context q) name = Param (Context req) name)
           \<and> (name \<notin> fst ` set (bound_params (segs rt) (pathSegments (Path req)))
                \<and> Context req name = None
                  \<longrightarrow> Param (Context q) name = [])))"
proof (intro conjI allI impI)
  show "ServeHTTP (Handle ''GET'' ''/path-param/:id'' h (NewRouter nf))
        \<lparr>Method = ''GET'', Path = ''/path-param/123'', Context = c0\<rparr>
      = [Handler_ServeHTTP h
           \<lparr>Method = ''GET'', Path = ''/path-param/123'', Context = c0(''id'' \<mapsto> ''123'')\<rparr>]"
    by (simp add: ServeHTTP_single match_path_param_any)
  show "Param (c0(''id'' \<mapsto> ''123'')) ''id'' = ''123''"
    by (simp add: Param_def)
next
  fix r :: "'h Router" and req rt name
  assume win: "List.find (\<lambda>rt. matches rt req) (routes r) = Some rt"
  let ?bp = "bound_params (segs rt) (pathSegments (Path req))"
  let ?q = "req\<lparr>Context := Context req ++ map_of (rev ?bp)\<rparr>"
  have call: "ServeHTTP r req = [Handler_ServeHTTP (handler rt) ?q]"
    using win by (simp add: ServeHTTP_bound_params)
  have bound: "Param (Context ?q) name = v" if "map_of (rev ?bp) name = Some v" for v
    using that by (simp add: Param_def)
  have unbound: "Param (Context ?q) name = Param (Context req) name"
    if "name \<notin> fst ` set ?bp"
  proof -
    from that have "map_of (rev ?bp) name = None" by (simp add: map_of_eq_None_iff)
    then show ?thesis by (simp add: Param_def map_add_def)
  qed
  have fresh: "Param (Context ?q) name = []"
    if "name \<notin> fst ` set ?bp \<and> Context req name = None"
    using that unbound by (simp add: Param_def)
  from call bound unbound fresh
  show "\<exists>q. ServeHTTP r req = [Handler_ServeHTTP (handler rt) q]
           \<and> (\<forall>v. map_of (rev ?bp) name = Some v \<longrightarrow> Param (Context q) name = v)
           \<and> (name \<notin> fst ` set ?bp \<longrightarrow> Param (Context q) name = Param (Context req) name)
           \<and> (name \<notin> fst ` set ?bp \<and> Context req name = None \<longrightarrow> Param (Context q) name = [])"
    by blast
qed

lemma find_prefix_param:
  "List.find (\<lambda>rt. matches rt \<lparr>Method = ''GET'', Path = ''/fab'', Context = Map.empty\<rparr>)
     (routes (Handle ''GET'' ''/f.../:id'' (5::nat) (NewRouter 0)))
   = Some (new_route ''GET'' ''/f.../:id'' 5)"
  by code_simp

lemma bound_prefix_param:
  "bound_params (pathSegments ''/f.../:id'') (pathSegments ''/fab'') = []"
  by code_simp

theorem Param_bound_and_unbound_witness:
  "\<exists>q. ServeHTTP (Handle ''GET'' ''/f.../:id'' (5::nat) (NewRouter 0))
          \<lparr>Method = ''GET'', Path = ''/fab'', Context = Map.empty\<rparr>
        = [Handler_ServeHTTP 5 q]
       \<and> Param (Context q) ''id'' = []"
proof -
  let ?req = "\<lparr>Method = ''GET'', Path = ''/fab'', Context = Map.empty\<rparr>"
  let ?r = "Handle ''GET'' ''/f.../:id'' (5::nat) (NewRouter 0)"
  let ?rt = "new_route ''GET'' ''/f.../:id'' (5::nat)"
  from Param_bound_and_unbound[of 5 0 Map.empty, THEN conjunct2, rule_format,
      of ?req ?r ?rt "''id''", OF find_prefix_param]
  obtain q where q: "ServeHTTP ?r ?req = [Handler_ServeHTTP (handler ?rt) q]"
    and e: "''id'' \<notin> fst ` set (bound_params (segs ?rt) (pathSegments (Path ?req)))
            \<and> Context ?req ''id'' = None \<longrightarrow> Param (Context q) ''id'' = []"
    by blast
  have "''id'' \<notin> fst ` set (bound_params (segs ?rt) (pathSegments (Path ?req)))"
    by (simp add: new_route_sel bound_prefix_param)
  with e have "Param (Context q) ''id'' = []" by simp
  with q show ?thesis by (simp add: new_route_sel)
qed





end
